theory Spec2Isabelle
  imports Complex_Main "HOL-Library.Char_ord" "HOL-Library.List_Lexorder"
    "HOL-Library.Product_Lexorder" "HOL-Library.Multiset"
begin

section \<open>Text and cells\<close>

text \<open>
  A Python \<open>str\<close> is modelled as a \<open>string\<close> whose characters are the code points
  0..255. On these code points \<open>str.lower\<close>, \<open>str.strip\<close>, \<open>str.isspace\<close> and the
  regular-expression classes \<open>\w\<close> and \<open>\s\<close> stay inside the range, and the three
  functions below are their tables.
\<close>

definition is_space :: "char \<Rightarrow> bool" where
  "is_space c = (let n = (of_char c :: nat) in
     (9 \<le> n \<and> n \<le> 13) \<or> (28 \<le> n \<and> n \<le> 32) \<or> n = 133 \<or> n = 160)"

definition is_word :: "char \<Rightarrow> bool" where
  "is_word c = (let n = (of_char c :: nat) in
     (48 \<le> n \<and> n \<le> 57) \<or> (65 \<le> n \<and> n \<le> 90) \<or> n = 95 \<or> (97 \<le> n \<and> n \<le> 122) \<or>
     n = 170 \<or> n = 178 \<or> n = 179 \<or> n = 181 \<or> n = 185 \<or> n = 186 \<or>
     (188 \<le> n \<and> n \<le> 190) \<or> (192 \<le> n \<and> n \<le> 214) \<or> (216 \<le> n \<and> n \<le> 246) \<or>
     (248 \<le> n \<and> n \<le> 255))"

definition lower_char :: "char \<Rightarrow> char" where
  "lower_char c = (let n = (of_char c :: nat) in
     if (65 \<le> n \<and> n \<le> 90) \<or> (192 \<le> n \<and> n \<le> 214) \<or> (216 \<le> n \<and> n \<le> 222)
     then char_of (n + 32) else c)"

definition str_lower :: "string \<Rightarrow> string" where
  "str_lower s = map lower_char s"

text \<open>\<open>str.upper\<close>, on ASCII text only (the seed keys are ASCII).\<close>

definition upper_char :: "char \<Rightarrow> char" where
  "upper_char c = (let n = (of_char c :: nat) in
     if 97 \<le> n \<and> n \<le> 122 then char_of (n - 32) else c)"

definition str_upper :: "string \<Rightarrow> string" where
  "str_upper s = map upper_char s"

text \<open>\<open>str.strip()\<close>: white space is dropped at both ends.\<close>

definition str_strip :: "string \<Rightarrow> string" where
  "str_strip s = rev (dropWhile is_space (rev (dropWhile is_space s)))"

text \<open>
  \<open>re.sub(r"[^\w\s]", "", text)\<close>: the scan goes left to right; a character that is
  neither a word character nor white space matches the class and is replaced by the
  empty string, any other character is copied.
\<close>

fun re_sub_nonword :: "string \<Rightarrow> string" where
  "re_sub_nonword [] = []"
| "re_sub_nonword (c # cs) =
     (if \<not> (is_word c \<or> is_space c) then re_sub_nonword cs else c # re_sub_nonword cs)"

text \<open>
  A cell of a table: a missing marker (the values for which \<open>pd.isna\<close> holds), a text,
  or another scalar (a number, a boolean, a time stamp), which carries its \<open>str()\<close>
  form.
\<close>

datatype na_kind = PyNone | NaN | NaT | NA

datatype cell = Missing na_kind | Text string | Other string

fun isna :: "cell \<Rightarrow> bool" where
  "isna (Missing _) = True"
| "isna (Text _) = False"
| "isna (Other _) = False"

fun str_of :: "cell \<Rightarrow> string" where
  "str_of (Text s) = s"
| "str_of (Other s) = s"
| "str_of (Missing PyNone) = ''None''"
| "str_of (Missing NaN) = ''nan''"
| "str_of (Missing NaT) = ''NaT''"
| "str_of (Missing NA) = ''<NA>''"

text \<open>\<open>normalize\<close> of the source; \<open>None\<close> is Python's \<open>None\<close>.\<close>

definition normalize_value :: "cell \<Rightarrow> string option" where
  "normalize_value text =
     (if isna text then None
      else Some (re_sub_nonword (str_strip (str_lower (str_of text)))))"

section \<open>Dictionaries\<close>

text \<open>
  A Python \<open>dict\<close> keeps its keys in insertion order: an association list with distinct
  keys. Storing under a key that is present replaces the value in place.
\<close>

type_synonym dict = "(string \<times> string) list"

fun dict_set :: "string \<Rightarrow> string \<Rightarrow> dict \<Rightarrow> dict" where
  "dict_set k v [] = [(k, v)]"
| "dict_set k v ((k', v') # d) = (if k' = k then (k, v) # d else (k', v') # dict_set k v d)"

definition dict_keys :: "dict \<Rightarrow> string list" where
  "dict_keys d = map fst d"

definition dict_contains :: "dict \<Rightarrow> string \<Rightarrow> bool" where
  "dict_contains d k = (k \<in> set (dict_keys d))"

datatype error =
    ValueError string
  | KeyError string
  | TypeError string
  | AttributeError string
  | ProcessingError string

definition dict_getitem :: "dict \<Rightarrow> string \<Rightarrow> error + string" where
  "dict_getitem d k = (case map_of d k of None \<Rightarrow> Inl (KeyError k) | Some v \<Rightarrow> Inr v)"

definition district_renames :: "(string \<times> string) list" where
  "district_renames =
     [(''Cuddapah'', ''Ysr Kadapa''),
      (''Allahabad'', ''Prayagraj''),
      (''Faizabad'', ''Ayodhya''),
      (''Bardhaman'', ''Purba Bardhaman''),
      (''Hugli'', ''Hooghly'')]"

definition state_corrections :: "(string \<times> string) list" where
  "state_corrections =
     [(''WESTBENGAL'', ''West Bengal''),
      (''Orissa'', ''Odisha''),
      (''andhra pradesh'', ''Andhra Pradesh''),
      (''Uttaranchal'', ''Uttarakhand'')]"

text \<open>
  The comprehension \<open>{normalize(k): v for k, v in seed.items()}\<close>. The seed keys are
  texts, for which \<open>normalize\<close> returns a text; the \<open>None\<close> branch is not reached.
\<close>

fun normalized_dict :: "(string \<times> string) list \<Rightarrow> dict \<Rightarrow> dict" where
  "normalized_dict [] d = d"
| "normalized_dict ((k, v) # kvs) d =
     (case normalize_value (Text k) of
        None \<Rightarrow> normalized_dict kvs d
      | Some key \<Rightarrow> normalized_dict kvs (dict_set key v d))"

definition district_map :: dict where
  "district_map = normalized_dict district_renames []"

definition state_map :: dict where
  "state_map = normalized_dict state_corrections []"

section \<open>Sequence similarity\<close>

text \<open>
  The source calls \<open>difflib.get_close_matches(key, mapping.keys(), n=1, cutoff=cutoff)\<close>
  of the Python standard library. The definitions of this section follow that
  function and what it runs of \<open>SequenceMatcher\<close>, which is created with no junk
  predicate and with \<open>autojunk\<close> on; \<open>a\<close> is a candidate, \<open>b\<close> the word looked for.
  A ratio is the exact fraction \<open>2 * matches / length\<close>. The library rounds the same
  fraction to a double; comparing the doubles with each other and with the cut-off
  gives the same outcome for all texts in reach (fractions whose denominators stay
  below \<open>2^26\<close> are separated by their roundings).
\<close>

definition calculate_ratio :: "nat \<Rightarrow> nat \<Rightarrow> rat" where
  "calculate_ratio matches len = (if len \<noteq> 0 then 2 * of_nat matches / of_nat len else 1)"

text \<open>
  \<open>__chain_b\<close>: \<open>b2j\<close> maps an element of \<open>b\<close> to the ascending list of its positions.
  When \<open>b\<close> has 200 elements or more, an element that occurs more than
  \<open>len(b) // 100 + 1\<close> times is popular and its entry is deleted. The junk set stays
  empty.
\<close>

definition indices_of :: "string \<Rightarrow> char \<Rightarrow> nat list" where
  "indices_of b elt = filter (\<lambda>j. b ! j = elt) [0..<length b]"

definition popular :: "string \<Rightarrow> char \<Rightarrow> bool" where
  "popular b elt = (length b \<ge> 200 \<and> length (indices_of b elt) > length b div 100 + 1)"

definition b2j :: "string \<Rightarrow> char \<Rightarrow> nat list" where
  "b2j b elt = (if popular b elt then [] else indices_of b elt)"

text \<open>
  \<open>find_longest_match\<close>. The inner loop runs over the positions \<open>j\<close> of \<open>a[i]\<close> in \<open>b\<close>;
  \<open>j2len.get(j-1, 0)\<close> finds nothing at \<open>j = 0\<close>.
\<close>

type_synonym block = "nat \<times> nat \<times> nat"

definition j2len_get :: "(nat \<rightharpoonup> nat) \<Rightarrow> nat \<Rightarrow> nat" where
  "j2len_get j2len j = (if j = 0 then 0 else case j2len (j - 1) of None \<Rightarrow> 0 | Some v \<Rightarrow> v)"

fun inner_loop ::
  "nat \<Rightarrow> nat \<Rightarrow> (nat \<rightharpoonup> nat) \<Rightarrow> nat \<Rightarrow> nat list \<Rightarrow> (nat \<rightharpoonup> nat) \<times> block \<Rightarrow> (nat \<rightharpoonup> nat) \<times> block"
where
  "inner_loop blo bhi j2len i [] st = st"
| "inner_loop blo bhi j2len i (j # js) (newj2len, besti, bestj, bestsize) =
     (if j < blo then inner_loop blo bhi j2len i js (newj2len, besti, bestj, bestsize)
      else if j \<ge> bhi then (newj2len, besti, bestj, bestsize)
      else let k = j2len_get j2len j + 1 in
        inner_loop blo bhi j2len i js
          (newj2len(j \<mapsto> k),
           if k > bestsize then (i + 1 - k, j + 1 - k, k) else (besti, bestj, bestsize)))"

definition outer_step ::
  "string \<Rightarrow> string \<Rightarrow> nat \<Rightarrow> nat \<Rightarrow> nat \<Rightarrow> (nat \<rightharpoonup> nat) \<times> block \<Rightarrow> (nat \<rightharpoonup> nat) \<times> block"
where
  "outer_step a b blo bhi i st =
     inner_loop blo bhi (fst st) i (b2j b (a ! i)) (Map.empty, snd st)"

definition longest_loop :: "string \<Rightarrow> string \<Rightarrow> nat \<Rightarrow> nat \<Rightarrow> nat \<Rightarrow> nat \<Rightarrow> block" where
  "longest_loop a b alo ahi blo bhi =
     snd (fold (outer_step a b blo bhi) [alo..<ahi] (Map.empty, (alo, blo, 0)))"

function extend_left :: "string \<Rightarrow> string \<Rightarrow> nat \<Rightarrow> nat \<Rightarrow> block \<Rightarrow> block" where
  "extend_left a b alo blo (besti, bestj, bestsize) =
     (if besti > alo \<and> bestj > blo \<and> a ! (besti - 1) = b ! (bestj - 1)
      then extend_left a b alo blo (besti - 1, bestj - 1, bestsize + 1)
      else (besti, bestj, bestsize))"
  by pat_completeness auto
termination
  by (relation "measure (\<lambda>(a, b, alo, blo, besti, bestj, bestsize). besti)") auto

function extend_right :: "string \<Rightarrow> string \<Rightarrow> nat \<Rightarrow> nat \<Rightarrow> block \<Rightarrow> block" where
  "extend_right a b ahi bhi (besti, bestj, bestsize) =
     (if besti + bestsize < ahi \<and> bestj + bestsize < bhi \<and>
         a ! (besti + bestsize) = b ! (bestj + bestsize)
      then extend_right a b ahi bhi (besti, bestj, bestsize + 1)
      else (besti, bestj, bestsize))"
  by pat_completeness auto
termination
  by (relation "measure (\<lambda>(a, b, ahi, bhi, besti, bestj, bestsize). ahi - (besti + bestsize))") auto

text \<open>
  The two further loops of \<open>find_longest_match\<close> extend the match over junk elements
  only; with an empty junk set they do not run.
\<close>

definition find_longest_match :: "string \<Rightarrow> string \<Rightarrow> nat \<Rightarrow> nat \<Rightarrow> nat \<Rightarrow> nat \<Rightarrow> block" where
  "find_longest_match a b alo ahi blo bhi =
     extend_right a b ahi bhi (extend_left a b alo blo (longest_loop a b alo ahi blo bhi))"

subsection \<open>The longest match lies inside its ranges\<close>

definition j2len_ok :: "string \<Rightarrow> string \<Rightarrow> nat \<Rightarrow> nat \<Rightarrow> nat \<Rightarrow> nat \<Rightarrow> (nat \<rightharpoonup> nat) \<Rightarrow> bool" where
  "j2len_ok a b alo blo bhi i m =
     (\<forall>j v. m j = Some v \<longrightarrow>
        1 \<le> v \<and> v + alo \<le> i \<and> v + blo \<le> j + 1 \<and> j < bhi \<and>
        (\<forall>t<v. a ! (i - 1 - t) = b ! (j - t)))"

definition block_ok :: "string \<Rightarrow> string \<Rightarrow> nat \<Rightarrow> nat \<Rightarrow> nat \<Rightarrow> nat \<Rightarrow> block \<Rightarrow> bool" where
  "block_ok a b alo ahi blo bhi x =
     (case x of (i, j, k) \<Rightarrow>
        alo \<le> i \<and> i + k \<le> ahi \<and> blo \<le> j \<and> j + k \<le> bhi \<and>
        (\<forall>t<k. a ! (i + t) = b ! (j + t)))"

lemma b2j_sound: "j \<in> set (b2j b e) \<Longrightarrow> j < length b \<and> b ! j = e"
  by (auto simp: b2j_def indices_of_def split: if_splits)

lemma j2len_get_ok:
  assumes "j2len_ok a b alo blo bhi i m" "blo \<le> j" "alo \<le> i"
  shows "j2len_get m j + alo \<le> i \<and> j2len_get m j + blo \<le> j \<and>
         (\<forall>t<j2len_get m j. a ! (i - 1 - t) = b ! (j - 1 - t))"
proof (cases "j = 0")
  case True
  then show ?thesis using assms by (simp add: j2len_get_def)
next
  case False
  show ?thesis
  proof (cases "m (j - 1)")
    case None
    then show ?thesis using False assms by (simp add: j2len_get_def)
  next
    case (Some v)
    then have g: "j2len_get m j = v" using False by (simp add: j2len_get_def)
    from assms(1) Some have
      "v + alo \<le> i" "v + blo \<le> j - 1 + 1" "\<forall>t<v. a ! (i - 1 - t) = b ! (j - 1 - t)"
      unfolding j2len_ok_def by blast+
    then show ?thesis using g False by simp
  qed
qed

lemma inner_loop_ok:
  assumes "j2len_ok a b alo blo bhi i m" "alo \<le> i"
    and "\<forall>j\<in>set js. j < length b \<and> b ! j = a ! i"
    and "j2len_ok a b alo blo bhi (Suc i) nm"
    and "block_ok a b alo (Suc i) blo bhi best"
    and "inner_loop blo bhi m i js (nm, best) = (nm', best')"
  shows "j2len_ok a b alo blo bhi (Suc i) nm' \<and> block_ok a b alo (Suc i) blo bhi best'"
  using assms(3-)
proof (induction js arbitrary: nm best)
  case Nil
  then show ?case by simp
next
  case (Cons j js)
  obtain bi bj bs where best: "best = (bi, bj, bs)" by (cases best)
  show ?case
  proof (cases "j < blo")
    case True
    with Cons best show ?thesis by simp
  next
    case False
    note nlo = this
    show ?thesis
    proof (cases "j \<ge> bhi")
      case True
      with Cons nlo best show ?thesis by simp
    next
      case False
      define k where "k = j2len_get m j + 1"
      have jb: "blo \<le> j" "j < bhi" using nlo False by simp_all
      have eq: "b ! j = a ! i" using Cons.prems(1) by simp
      from j2len_get_ok[OF assms(1) jb(1) assms(2)]
      have g: "j2len_get m j + alo \<le> i" "j2len_get m j + blo \<le> j"
        "\<forall>t<j2len_get m j. a ! (i - 1 - t) = b ! (j - 1 - t)" by blast+
      have kk: "\<forall>t<k. a ! (i - t) = b ! (j - t)"
      proof (intro allI impI)
        fix t assume "t < k"
        show "a ! (i - t) = b ! (j - t)"
        proof (cases t)
          case 0
          then show ?thesis using eq by simp
        next
          case (Suc t')
          then have "t' < j2len_get m j" using \<open>t < k\<close> k_def by simp
          with g(3) have "a ! (i - 1 - t') = b ! (j - 1 - t')" by blast
          then show ?thesis using Suc by simp
        qed
      qed
      have nm_ok: "j2len_ok a b alo blo bhi (Suc i) (nm(j \<mapsto> k))"
        using Cons.prems(2) g jb kk unfolding j2len_ok_def k_def by auto
      have best_ok: "block_ok a b alo (Suc i) blo bhi
            (if k > bs then (i + 1 - k, j + 1 - k, k) else (bi, bj, bs))"
      proof (cases "k > bs")
        case True
        have "\<forall>t<k. a ! (i + 1 - k + t) = b ! (j + 1 - k + t)"
        proof (intro allI impI)
          fix t assume t: "t < k"
          then have "k - 1 - t < k" by simp
          with kk have x: "a ! (i - (k - 1 - t)) = b ! (j - (k - 1 - t))" by blast
          have e1: "i - (k - 1 - t) = i + 1 - k + t" using t g(1) k_def by simp
          have e2: "j - (k - 1 - t) = j + 1 - k + t" using t g(2) k_def by simp
          show "a ! (i + 1 - k + t) = b ! (j + 1 - k + t)" using x unfolding e1 e2 .
        qed
        moreover have "alo \<le> i + 1 - k" "i + 1 - k + k \<le> Suc i" "blo \<le> j + 1 - k"
          "j + 1 - k + k \<le> bhi" using g(1,2) jb unfolding k_def by linarith+
        ultimately have "block_ok a b alo (Suc i) blo bhi (i + 1 - k, j + 1 - k, k)"
          unfolding block_ok_def prod.case by blast
        then show ?thesis using True by simp
      next
        case False
        then show ?thesis using Cons.prems(3) best by simp
      qed
      have step: "inner_loop blo bhi m i (j # js) (nm, best) =
           inner_loop blo bhi m i js (nm(j \<mapsto> k),
             if k > bs then (i + 1 - k, j + 1 - k, k) else (bi, bj, bs))"
        using nlo False best by (simp add: k_def Let_def)
      from Cons.prems(4) have r: "inner_loop blo bhi m i js (nm(j \<mapsto> k),
             if k > bs then (i + 1 - k, j + 1 - k, k) else (bi, bj, bs)) = (nm', best')"
        unfolding step .
      have rest: "\<forall>j\<in>set js. j < length b \<and> b ! j = a ! i" using Cons.prems(1) by simp
      show ?thesis by (rule Cons.IH[OF rest nm_ok best_ok r])
    qed
  qed
qed

lemma outer_step_ok:
  assumes "j2len_ok a b alo blo bhi i (fst st)" "alo \<le> i" "blo \<le> bhi"
    and "block_ok a b alo i blo bhi (snd st)"
  shows "j2len_ok a b alo blo bhi (Suc i) (fst (outer_step a b blo bhi i st)) \<and>
         block_ok a b alo (Suc i) blo bhi (snd (outer_step a b blo bhi i st))"
proof -
  have e: "j2len_ok a b alo blo bhi (Suc i) Map.empty" by (simp add: j2len_ok_def)
  have w: "block_ok a b alo (Suc i) blo bhi (snd st)"
    using assms(4) by (auto simp: block_ok_def)
  have js: "\<forall>j\<in>set (b2j b (a ! i)). j < length b \<and> b ! j = a ! i"
    using b2j_sound by blast
  obtain nm' best' where r: "inner_loop blo bhi (fst st) i (b2j b (a ! i)) (Map.empty, snd st) = (nm', best')"
    by (cases "inner_loop blo bhi (fst st) i (b2j b (a ! i)) (Map.empty, snd st)")
  from inner_loop_ok[OF assms(1,2) js e w r] show ?thesis
    by (simp add: outer_step_def r)
qed

lemma outer_fold_ok:
  assumes "alo \<le> ahi" "blo \<le> bhi"
  shows "j2len_ok a b alo blo bhi ahi (fst (fold (outer_step a b blo bhi) [alo..<ahi] (Map.empty, (alo, blo, 0)))) \<and>
         block_ok a b alo ahi blo bhi (snd (fold (outer_step a b blo bhi) [alo..<ahi] (Map.empty, (alo, blo, 0))))"
  using assms(1)
proof (induction ahi)
  case 0
  then show ?case using assms(2) by (simp add: j2len_ok_def block_ok_def)
next
  case (Suc n)
  show ?case
  proof (cases "alo = Suc n")
    case True
    then show ?thesis using assms(2) by (simp add: j2len_ok_def block_ok_def)
  next
    case False
    then have le: "alo \<le> n" using Suc.prems by simp
    from Suc.IH[OF le] outer_step_ok[OF _ le assms(2)] show ?thesis
      using le by simp
  qed
qed

lemma longest_loop_ok:
  "alo \<le> ahi \<Longrightarrow> blo \<le> bhi \<Longrightarrow> block_ok a b alo ahi blo bhi (longest_loop a b alo ahi blo bhi)"
  using outer_fold_ok by (simp add: longest_loop_def)

declare extend_left.simps [simp del] extend_right.simps [simp del]

lemma extend_left_ok:
  "block_ok a b alo ahi blo bhi x \<Longrightarrow> block_ok a b alo ahi blo bhi (extend_left a b alo blo x)"
proof (induction a b alo blo x rule: extend_left.induct)
  case (1 a b alo blo besti bestj bestsize)
  show ?case
  proof (cases "besti > alo \<and> bestj > blo \<and> a ! (besti - 1) = b ! (bestj - 1)")
    case True
    have "block_ok a b alo ahi blo bhi (besti - 1, bestj - 1, bestsize + 1)"
      unfolding block_ok_def prod.case
    proof (intro conjI allI impI)
      fix t assume "t < bestsize + 1"
      show "a ! (besti - 1 + t) = b ! (bestj - 1 + t)"
      proof (cases t)
        case 0
        then show ?thesis using True by simp
      next
        case (Suc t')
        then have "t' < bestsize" using \<open>t < bestsize + 1\<close> by simp
        then have "a ! (besti + t') = b ! (bestj + t')" using "1.prems" by (simp add: block_ok_def)
        moreover have "besti - 1 + t = besti + t'" "bestj - 1 + t = bestj + t'" using True Suc by simp_all
        ultimately show ?thesis by simp
      qed
    qed (use True "1.prems" in \<open>auto simp: block_ok_def\<close>)
    from "1.IH"[OF True this] show ?thesis
      by (subst extend_left.simps) (simp only: True if_True simp_thms)
  next
    case False
    show ?thesis using "1.prems"
      by (subst extend_left.simps) (simp only: False if_False simp_thms)
  qed
qed

lemma extend_right_ok:
  "block_ok a b alo ahi blo bhi x \<Longrightarrow> block_ok a b alo ahi blo bhi (extend_right a b ahi bhi x)"
proof (induction a b ahi bhi x rule: extend_right.induct)
  case (1 a b ahi bhi besti bestj bestsize)
  show ?case
  proof (cases "besti + bestsize < ahi \<and> bestj + bestsize < bhi \<and>
         a ! (besti + bestsize) = b ! (bestj + bestsize)")
    case True
    have "block_ok a b alo ahi blo bhi (besti, bestj, bestsize + 1)"
      using True "1.prems" by (auto simp: block_ok_def less_Suc_eq)
    from "1.IH"[OF True this] show ?thesis
      by (subst extend_right.simps) (simp only: True if_True simp_thms)
  next
    case False
    show ?thesis using "1.prems"
      by (subst extend_right.simps) (simp only: False if_False simp_thms)
  qed
qed

lemma find_longest_match_ok:
  "alo \<le> ahi \<Longrightarrow> blo \<le> bhi \<Longrightarrow>
   block_ok a b alo ahi blo bhi (find_longest_match a b alo ahi blo bhi)"
  unfolding find_longest_match_def
  by (intro extend_right_ok extend_left_ok longest_loop_ok)

lemma inner_loop_skip:
  "bhi < blo \<Longrightarrow> inner_loop blo bhi m i js st = st"
proof (induction js)
  case Nil
  then show ?case by simp
next
  case (Cons j js)
  obtain nm bi bj bs where st: "st = (nm, bi, bj, bs)" by (cases st)
  show ?case using Cons unfolding st by (cases "j < blo") simp_all
qed

lemma outer_fold_skip:
  "bhi < blo \<Longrightarrow> snd (fold (outer_step a b blo bhi) is (m, best)) = best"
  by (induction "is" arbitrary: m) (simp_all add: outer_step_def inner_loop_skip)

lemma find_longest_match_empty:
  assumes "\<not> (alo \<le> ahi \<and> blo \<le> bhi)"
  shows "find_longest_match a b alo ahi blo bhi = (alo, blo, 0)"
proof (cases "alo \<le> ahi")
  case False
  then have "longest_loop a b alo ahi blo bhi = (alo, blo, 0)"
    by (simp add: longest_loop_def)
  then show ?thesis using False
    by (simp add: find_longest_match_def extend_left.simps extend_right.simps)
next
  case True
  then have lt: "bhi < blo" using assms by simp
  then have "longest_loop a b alo ahi blo bhi = (alo, blo, 0)"
    by (simp add: longest_loop_def outer_fold_skip)
  then show ?thesis using lt
    by (simp add: find_longest_match_def extend_left.simps extend_right.simps)
qed

lemma find_longest_match_range:
  assumes "find_longest_match a b alo ahi blo bhi = (i, j, k)" "k \<noteq> 0"
  shows "alo \<le> i \<and> i + k \<le> ahi \<and> blo \<le> j \<and> j + k \<le> bhi"
proof -
  have r: "alo \<le> ahi \<and> blo \<le> bhi"
    using assms find_longest_match_empty[of alo ahi blo bhi a b] by auto
  then have "block_ok a b alo ahi blo bhi (i, j, k)"
    using find_longest_match_ok[of alo ahi blo bhi a b] assms(1) by simp
  then show ?thesis by (simp add: block_ok_def)
qed

type_synonym range = "nat \<times> nat \<times> nat \<times> nat"

function blocks_loop :: "string \<Rightarrow> string \<Rightarrow> range list \<Rightarrow> block list \<Rightarrow> block list" where
  "blocks_loop a b [] matching_blocks = matching_blocks"
| "blocks_loop a b ((alo, ahi, blo, bhi) # queue) matching_blocks =
     (case find_longest_match a b alo ahi blo bhi of
        (i, j, k) \<Rightarrow>
          if k \<noteq> 0 then
            blocks_loop a b
              ((if i + k < ahi \<and> j + k < bhi then [(i + k, ahi, j + k, bhi)] else []) @
               (if alo < i \<and> blo < j then [(alo, i, blo, j)] else []) @ queue)
              (matching_blocks @ [(i, j, k)])
          else blocks_loop a b queue matching_blocks)"
  by pat_completeness auto
termination
proof (relation "measure (\<lambda>(a, b, queue, mb). sum_list (map (\<lambda>(alo, ahi, blo, bhi). 2 * (ahi - alo) + 1) queue))", goal_cases)
  case 1
  then show ?case by simp
next
  case (2 a b alo ahi blo bhi queue matching_blocks i y j k)
  then have "find_longest_match a b alo ahi blo bhi = (i, j, k)" by simp
  from find_longest_match_range[OF this \<open>k \<noteq> 0\<close>] \<open>k \<noteq> 0\<close> show ?case by auto
next
  case 3
  then show ?case by simp
qed

subsection \<open>Matching blocks, ratios and close matches\<close>

text \<open>
  \<open>get_matching_blocks\<close>: the work list is a stack (\<open>queue.pop()\<close> takes the range
  appended last); the blocks found are sorted, adjacent blocks are merged, and the
  sentinel \<open>(la, lb, 0)\<close> is appended.
\<close>

fun collapse :: "block list \<Rightarrow> block \<Rightarrow> block list \<Rightarrow> block list" where
  "collapse [] (i1, j1, k1) non_adjacent =
     (if k1 \<noteq> 0 then non_adjacent @ [(i1, j1, k1)] else non_adjacent)"
| "collapse ((i2, j2, k2) # rest) (i1, j1, k1) non_adjacent =
     (if i1 + k1 = i2 \<and> j1 + k1 = j2 then collapse rest (i1, j1, k1 + k2) non_adjacent
      else collapse rest (i2, j2, k2)
             (if k1 \<noteq> 0 then non_adjacent @ [(i1, j1, k1)] else non_adjacent))"

definition get_matching_blocks :: "string \<Rightarrow> string \<Rightarrow> block list" where
  "get_matching_blocks a b =
     (let la = length a; lb = length b;
          matching_blocks = sort (blocks_loop a b [(0, la, 0, lb)] [])
      in collapse matching_blocks (0, 0, 0) [] @ [(la, lb, 0)])"

definition ratio :: "string \<Rightarrow> string \<Rightarrow> rat" where
  "ratio a b =
     calculate_ratio (sum_list (map (\<lambda>(i, j, k). k) (get_matching_blocks a b)))
       (length a + length b)"

text \<open>\<open>quick_ratio\<close>: \<open>fullbcount\<close> counts the elements of \<open>b\<close>; \<open>avail\<close> may go below zero.\<close>

definition fullbcount :: "string \<Rightarrow> (char \<rightharpoonup> nat)" where
  "fullbcount b =
     fold (\<lambda>elt m. m(elt \<mapsto> (case m elt of None \<Rightarrow> 0 | Some c \<Rightarrow> c) + 1)) b Map.empty"

definition quick_step :: "(char \<rightharpoonup> nat) \<Rightarrow> char \<Rightarrow> (char \<rightharpoonup> int) \<times> nat \<Rightarrow> (char \<rightharpoonup> int) \<times> nat" where
  "quick_step fbc elt st =
     (case st of (avail, matches) \<Rightarrow>
        let numb = (case avail elt of
                      Some n \<Rightarrow> n
                    | None \<Rightarrow> (case fbc elt of None \<Rightarrow> 0 | Some c \<Rightarrow> int c))
        in (avail(elt \<mapsto> numb - 1), if numb > 0 then matches + 1 else matches))"

definition quick_ratio :: "string \<Rightarrow> string \<Rightarrow> rat" where
  "quick_ratio a b =
     calculate_ratio (snd (fold (quick_step (fullbcount b)) a (Map.empty, 0)))
       (length a + length b)"

definition real_quick_ratio :: "string \<Rightarrow> string \<Rightarrow> rat" where
  "real_quick_ratio a b =
     (let la = length a; lb = length b in calculate_ratio (min la lb) (la + lb))"

text \<open>
  \<open>get_close_matches\<close> with \<open>n = 1\<close>, as the source calls it. The three tests are
  evaluated left to right and stop at the first that fails. \<open>nlargest(1, result)\<close> is
  \<open>max(result)\<close> on the pairs \<open>(score, x)\<close>: pairs compare by score and, at equal
  scores, by the texts (code point by code point); \<open>max\<close> keeps the first of equal
  items.
\<close>

definition tuple_gt :: "rat \<times> string \<Rightarrow> rat \<times> string \<Rightarrow> bool" where
  "tuple_gt p q = (if fst p \<noteq> fst q then fst p > fst q else snd p > snd q)"

fun py_max :: "(rat \<times> string) \<Rightarrow> (rat \<times> string) list \<Rightarrow> rat \<times> string" where
  "py_max m [] = m"
| "py_max m (x # xs) = py_max (if tuple_gt x m then x else m) xs"

definition nlargest1 :: "(rat \<times> string) list \<Rightarrow> (rat \<times> string) list" where
  "nlargest1 result = (case result of [] \<Rightarrow> [] | x # xs \<Rightarrow> [py_max x xs])"

fun scored :: "string \<Rightarrow> string list \<Rightarrow> rat \<Rightarrow> (rat \<times> string) list" where
  "scored word [] cutoff = []"
| "scored word (x # possibilities) cutoff =
     (if (if real_quick_ratio x word \<ge> cutoff
          then (if quick_ratio x word \<ge> cutoff then ratio x word \<ge> cutoff else False)
          else False)
      then (ratio x word, x) # scored word possibilities cutoff
      else scored word possibilities cutoff)"

definition get_close_matches :: "string \<Rightarrow> string list \<Rightarrow> rat \<Rightarrow> error + string list" where
  "get_close_matches word possibilities cutoff =
     (if \<not> (0 \<le> cutoff \<and> cutoff \<le> 1)
      then Inl (ValueError ''cutoff must be in [0.0, 1.0]'')
      else Inr (map snd (nlargest1 (scored word possibilities cutoff))))"

section \<open>The corrector\<close>

text \<open>
  \<open>fuzzy_correct\<close> of the source. \<open>mapping[k]\<close> raises \<open>KeyError\<close> when \<open>k\<close> is no key.
  A missing value returns before \<open>normalize\<close> is called; were \<open>key\<close> \<open>None\<close>, the
  library would raise \<open>TypeError\<close> when it takes the length of the word.
\<close>

definition mapping_lookup :: "dict \<Rightarrow> string \<Rightarrow> error + cell" where
  "mapping_lookup mapping k =
     (case dict_getitem mapping k of Inl e \<Rightarrow> Inl e | Inr v \<Rightarrow> Inr (Text v))"

definition fuzzy_correct :: "cell \<Rightarrow> dict \<Rightarrow> rat \<Rightarrow> error + cell" where
  "fuzzy_correct val mapping cutoff =
     (if isna val then Inr val
      else case normalize_value val of
          None \<Rightarrow> Inl (TypeError ''object of type NoneType has no len()'')
      | Some key \<Rightarrow>
          (if dict_contains mapping key then mapping_lookup mapping key
           else (case get_close_matches key (dict_keys mapping) cutoff of
                   Inl e \<Rightarrow> Inl e
                 | Inr matches \<Rightarrow>
                     (case matches of [] \<Rightarrow> Inr val | m # _ \<Rightarrow> mapping_lookup mapping m))))"

text \<open>The default \<open>cutoff=0.85\<close>.\<close>

definition default_cutoff :: rat where
  "default_cutoff = 85 / 100"

section \<open>The table cleaner\<close>

text \<open>
  A table is the list of its columns in file order, each a label with its cells. The
  readers of pandas make the labels distinct. \<open>read_csv\<close> gives text labels;
  \<open>read_excel\<close> gives a label that is no text for a header cell that holds a number or
  a date, and \<open>c.lower()\<close> raises \<open>AttributeError\<close> on it. \<open>NonStrLabel\<close> carries the
  \<open>str()\<close> form of such a label.
\<close>

datatype label = StrLabel string | NonStrLabel string

type_synonym table = "(label \<times> cell list) list"

text \<open>\<open>s.endswith(suffix)\<close> and \<open>sub in s\<close> on texts.\<close>

definition endswith :: "string \<Rightarrow> string \<Rightarrow> bool" where
  "endswith s suffix =
     (length suffix \<le> length s \<and> drop (length s - length suffix) s = suffix)"

fun contains :: "string \<Rightarrow> string \<Rightarrow> bool" where
  "contains sub [] = (sub = [])"
| "contains sub (c # cs) = (take (length sub) (c # cs) = sub \<or> contains sub cs)"

text \<open>The comprehension \<open>[c for c in df.columns if sub in c.lower()]\<close>.\<close>

fun matching_cols :: "string \<Rightarrow> label list \<Rightarrow> error + label list" where
  "matching_cols sub [] = Inr []"
| "matching_cols sub (NonStrLabel r # cs) =
     Inl (AttributeError ''object has no attribute lower'')"
| "matching_cols sub (StrLabel s # cs) =
     (case matching_cols sub cs of
        Inl e \<Rightarrow> Inl e
      | Inr rest \<Rightarrow> Inr (if contains sub (str_lower s) then StrLabel s # rest else rest))"

text \<open>Lines 74 to 83 of the source: both lists are built, then checked in turn.\<close>

definition locate_columns :: "label list \<Rightarrow> error + label \<times> label" where
  "locate_columns cols =
     (case matching_cols ''state'' cols of
        Inl e \<Rightarrow> Inl e
      | Inr state_cols \<Rightarrow>
          (case matching_cols ''district'' cols of
             Inl e \<Rightarrow> Inl e
           | Inr district_cols \<Rightarrow>
               (case state_cols of
                  [] \<Rightarrow> Inl (ValueError ''State column not found'')
                | state_col # _ \<Rightarrow>
                    (case district_cols of
                       [] \<Rightarrow> Inl (ValueError ''District column not found'')
                     | district_col # _ \<Rightarrow> Inr (state_col, district_col)))))"

text \<open>
  \<open>df[col]\<close> reads the column of that label (\<open>KeyError\<close> when there is none),
  \<open>df[col] = series\<close> replaces its cells and keeps its place, and \<open>Series.apply(f)\<close>
  calls \<open>f\<close> on the cells from the first to the last; an exception of \<open>f\<close> ends it.
\<close>

fun get_column :: "table \<Rightarrow> label \<Rightarrow> error + cell list" where
  "get_column [] col = Inl (KeyError (case col of StrLabel s \<Rightarrow> s | NonStrLabel s \<Rightarrow> s))"
| "get_column ((c, cells) # df) col = (if c = col then Inr cells else get_column df col)"

fun set_column :: "label \<Rightarrow> cell list \<Rightarrow> table \<Rightarrow> table" where
  "set_column col series [] = [(col, series)]"
| "set_column col series ((c, cells) # df) =
     (if c = col then (c, series) # df else (c, cells) # set_column col series df)"

fun apply_series :: "(cell \<Rightarrow> error + cell) \<Rightarrow> cell list \<Rightarrow> error + cell list" where
  "apply_series f [] = Inr []"
| "apply_series f (x # xs) =
     (case f x of
        Inl e \<Rightarrow> Inl e
      | Inr y \<Rightarrow> (case apply_series f xs of Inl e \<Rightarrow> Inl e | Inr ys \<Rightarrow> Inr (y # ys)))"

definition correct_column :: "label \<Rightarrow> dict \<Rightarrow> table \<Rightarrow> error + table" where
  "correct_column col mapping df =
     (case get_column df col of
        Inl e \<Rightarrow> Inl e
      | Inr cells \<Rightarrow>
          (case apply_series (\<lambda>x. fuzzy_correct x mapping default_cutoff) cells of
             Inl e \<Rightarrow> Inl e
           | Inr series \<Rightarrow> Inr (set_column col series df)))"

text \<open>Lines 74 to 87: locate the two columns, correct the state column, then the district column.\<close>

definition clean_table :: "table \<Rightarrow> error + table" where
  "clean_table df =
     (case locate_columns (map fst df) of
        Inl e \<Rightarrow> Inl e
      | Inr (state_col, district_col) \<Rightarrow>
          (case correct_column state_col state_map df of
             Inl e \<Rightarrow> Inl e
           | Inr df1 \<Rightarrow> correct_column district_col district_map df1))"

text \<open>
  The readers and writers of pandas are parameters. A reader returns the table of the
  file at a path or raises; a writer is handed a path and a table, changes the world
  \<open>'w\<close> and may raise.
\<close>

record 'w io =
  read_csv :: "string \<Rightarrow> 'w \<Rightarrow> error + table"
  read_excel :: "string \<Rightarrow> 'w \<Rightarrow> error + table"
  to_csv :: "string \<Rightarrow> table \<Rightarrow> 'w \<Rightarrow> (error + unit) \<times> 'w"
  to_excel :: "string \<Rightarrow> table \<Rightarrow> 'w \<Rightarrow> (error + unit) \<times> 'w"

definition load :: "'w io \<Rightarrow> string \<Rightarrow> 'w \<Rightarrow> error + table" where
  "load env input_path w =
     (if endswith input_path ''.csv'' then read_csv env input_path w
      else read_excel env input_path w)"

definition serialize :: "'w io \<Rightarrow> string \<Rightarrow> table \<Rightarrow> 'w \<Rightarrow> (error + unit) \<times> 'w" where
  "serialize env output_path df w =
     (if endswith output_path ''.csv'' then to_csv env output_path df w
      else to_excel env output_path df w)"

definition clean_file :: "'w io \<Rightarrow> string \<Rightarrow> string \<Rightarrow> 'w \<Rightarrow> (error + unit) \<times> 'w" where
  "clean_file env input_path output_path w =
     (case load env input_path w of
        Inl e \<Rightarrow> (Inl e, w)
      | Inr df \<Rightarrow>
          (case clean_table df of
             Inl e \<Rightarrow> (Inl e, w)
           | Inr df' \<Rightarrow> serialize env output_path df' w))"

section \<open>The corrector on the seed dictionaries\<close>

text \<open>The call \<open>fuzzy_correct(s, d)\<close> on a text, with the default cut-off.\<close>

definition correct :: "string \<Rightarrow> dict \<Rightarrow> error + cell" where
  "correct s d = fuzzy_correct (Text s) d default_cutoff"

text \<open>Applying the corrector to the result of a first call.\<close>

definition correct_twice :: "string \<Rightarrow> dict \<Rightarrow> error + cell" where
  "correct_twice s d =
     (case correct s d of Inl e \<Rightarrow> Inl e | Inr c \<Rightarrow> fuzzy_correct c d default_cutoff)"

definition seed_ok :: "dict \<Rightarrow> string \<times> string \<Rightarrow> bool" where
  "seed_ok d e =
     (case e of (original, canonical) \<Rightarrow>
        correct original d = Inr (Text canonical) \<and>
        correct (str_upper original) d = Inr (Text canonical) \<and>
        correct ('' '' @ original @ '' '') d = Inr (Text canonical))"

definition fixed_point :: "dict \<Rightarrow> string \<Rightarrow> bool" where
  "fixed_point d v = (correct v d = Inr (Text v) \<and> correct_twice v d = correct v d)"

definition below_cutoff :: "string \<Rightarrow> string \<Rightarrow> bool" where
  "below_cutoff word k = (ratio k word < default_cutoff)"

section \<open>Normalisation, trimming and punctuation\<close>

text \<open>
  Facts about \<open>normalize\<close>: the substitution keeps exactly the word characters and the
  white space, lower-casing keeps both classes, and trimming returns the one middle part
  of a text that has white space on neither end.
\<close>

lemma re_sub_nonword_filter:
  "re_sub_nonword s = filter (\<lambda>c. is_word c \<or> is_space c) s"
  by (induction s) simp_all

lemma is_space_lower_char: "is_space (lower_char c) = is_space c"
  by (auto simp: is_space_def lower_char_def Let_def)

lemma is_word_lower_char: "is_word (lower_char c) = is_word c"
  by (auto simp: is_word_def lower_char_def Let_def)

lemma filter_str_lower:
  "filter (\<lambda>c. is_word c \<or> is_space c) (str_lower s) =
   str_lower (filter (\<lambda>c. is_word c \<or> is_space c) s)"
  by (induction s) (simp_all add: str_lower_def is_space_lower_char is_word_lower_char)

lemma str_strip_padded:
  assumes "\<forall>c\<in>set l. is_space c" "\<forall>c\<in>set r. is_space c"
    and "t \<noteq> []" "\<not> is_space (hd t)" "\<not> is_space (last t)"
  shows "str_strip (l @ t @ r) = t"
proof -
  have "\<And>x. x \<in> set l \<Longrightarrow> is_space x" using assms(1) by simp
  then have "dropWhile is_space (l @ t @ r) = dropWhile is_space (t @ r)"
    by (rule dropWhile_append2)
  also have "\<dots> = t @ r" using assms(3,4) by (cases t) simp_all
  finally have a: "dropWhile is_space (l @ t @ r) = t @ r" .
  have "\<And>x. x \<in> set (rev r) \<Longrightarrow> is_space x" using assms(2) by simp
  then have "dropWhile is_space (rev r @ rev t) = dropWhile is_space (rev t)"
    by (rule dropWhile_append2)
  then have "dropWhile is_space (rev (t @ r)) = dropWhile is_space (rev t)" by simp
  also have "\<dots> = rev t" using assms(3,5) by (cases "rev t") (simp_all add: hd_rev)
  finally show ?thesis by (simp add: str_strip_def a)
qed


lemma filter_ends:
  assumes "filter (\<lambda>c. is_word c \<or> is_space c) s = t" "t \<noteq> []"
    "\<not> is_space (hd t)" "\<not> is_space (last t)"
  shows "s \<noteq> [] \<and> \<not> is_space (hd s) \<and> \<not> is_space (last s)"
proof -
  have ne: "s \<noteq> []" using assms(1,2) by auto
  have h: "\<not> is_space (hd s)"
  proof
    assume "is_space (hd s)"
    then have "hd t = hd s" using assms(1) ne by (cases s) auto
    then show False using assms(3) \<open>is_space (hd s)\<close> by simp
  qed
  have l: "\<not> is_space (last s)"
  proof
    assume sp: "is_space (last s)"
    obtain ys y where s: "s = ys @ [y]" using ne by (cases s rule: rev_cases) auto
    then have "last t = last s" using assms(1) sp by auto
    then show False using assms(4) sp by simp
  qed
  show ?thesis using ne h l by simp
qed

lemma normalize_value_padded:
  assumes "str_lower (filter (\<lambda>c. is_word c \<or> is_space c) s) = k" "k \<noteq> []"
    "\<not> is_space (hd k)" "\<not> is_space (last k)"
    "\<forall>c\<in>set l. is_space c" "\<forall>c\<in>set r. is_space c"
  shows "normalize_value (Text (l @ s @ r)) = Some k"
proof -
  have f: "filter (\<lambda>c. is_word c \<or> is_space c) (str_lower s) = k"
    using assms(1) by (simp add: filter_str_lower)
  from filter_ends[OF f assms(2,3,4)]
  have t: "str_lower s \<noteq> []" "\<not> is_space (hd (str_lower s))" "\<not> is_space (last (str_lower s))"
    by simp_all
  have l': "\<forall>c\<in>set (str_lower l). is_space c"
    using assms(5) by (simp add: str_lower_def is_space_lower_char)
  have r': "\<forall>c\<in>set (str_lower r). is_space c"
    using assms(6) by (simp add: str_lower_def is_space_lower_char)
  have "str_lower (l @ s @ r) = str_lower l @ str_lower s @ str_lower r"
    by (simp add: str_lower_def)
  then have "str_strip (str_lower (l @ s @ r)) = str_lower s"
    using str_strip_padded[OF l' r' t] by simp
  then show ?thesis using f by (simp add: normalize_value_def re_sub_nonword_filter)
qed


lemma correct_exact_key:
  assumes "normalize_value (Text x) = Some k" "dict_contains d k"
    "mapping_lookup d k = Inr (Text c)"
  shows "correct x d = Inr (Text c)"
  using assms by (simp add: correct_def fuzzy_correct_def)

lemma str_strip_decomp:
  "\<exists>l r. s = l @ str_strip s @ r \<and> (\<forall>c\<in>set l. is_space c) \<and> (\<forall>c\<in>set r. is_space c)"
proof -
  define u where "u = dropWhile is_space s"
  have s: "s = takeWhile is_space s @ u" by (simp add: u_def)
  have "rev (rev u) = rev (takeWhile is_space (rev u) @ dropWhile is_space (rev u))"
    by (simp only: takeWhile_dropWhile_id)
  also have "\<dots> = rev (dropWhile is_space (rev u)) @ rev (takeWhile is_space (rev u))"
    by (rule rev_append)
  finally have "u = rev (dropWhile is_space (rev u)) @ rev (takeWhile is_space (rev u))"
    by (simp only: rev_rev_ident)
  then have u: "u = str_strip s @ rev (takeWhile is_space (rev u))"
    unfolding str_strip_def u_def .
  have l: "\<forall>c\<in>set (takeWhile is_space s). is_space c" by (auto dest: set_takeWhileD)
  have r: "\<forall>c\<in>set (rev (takeWhile is_space (rev u))). is_space c" by (auto dest: set_takeWhileD)
  have "s = takeWhile is_space s @ str_strip s @ rev (takeWhile is_space (rev u))"
    using s u by simp
  with l r show ?thesis by blast
qed

lemma str_strip_ends:
  assumes "str_strip s \<noteq> []"
  shows "\<not> is_space (hd (str_strip s)) \<and> \<not> is_space (last (str_strip s))"
proof -
  define u where "u = dropWhile is_space s"
  define v where "v = dropWhile is_space (rev u)"
  have t: "str_strip s = rev v" by (simp add: str_strip_def u_def v_def)
  then have v: "v \<noteq> []" using assms by simp
  then have "\<not> is_space (hd v)" unfolding v_def by (rule hd_dropWhile)
  then have la: "\<not> is_space (last (str_strip s))" using t v by (simp add: last_rev)
  have "rev (rev u) = rev (takeWhile is_space (rev u) @ v)"
    unfolding v_def by (simp only: takeWhile_dropWhile_id)
  also have "\<dots> = rev v @ rev (takeWhile is_space (rev u))" by (rule rev_append)
  finally have u: "u = rev v @ rev (takeWhile is_space (rev u))"
    by (simp only: rev_rev_ident)
  then have "u \<noteq> []" using v by auto
  then have "\<not> is_space (hd u)" unfolding u_def by (rule hd_dropWhile)
  moreover have "hd u = hd (rev v)" using u v by (metis hd_append2 rev_is_Nil_conv)
  ultimately show ?thesis using la t by simp
qed

lemma str_strip_blank:
  assumes "\<forall>c\<in>set s. is_space c"
  shows "str_strip s = []"
proof -
  have e: "dropWhile is_space s = []" using assms by simp
  show ?thesis unfolding str_strip_def e by simp
qed

lemma str_strip_unique:
  assumes "s = l @ t @ r" "\<forall>c\<in>set l. is_space c" "\<forall>c\<in>set r. is_space c"
    and "t = [] \<or> \<not> is_space (hd t) \<and> \<not> is_space (last t)"
  shows "str_strip s = t"
proof (cases "t = []")
  case True
  then have "\<forall>c\<in>set s. is_space c" using assms(1-3) by auto
  then show ?thesis using True by (simp add: str_strip_blank)
next
  case False
  then show ?thesis using assms str_strip_padded[of l r t] by simp
qed


lemma district_seed_keys:
  "list_all (\<lambda>(original, canonical). let k = str_lower original in
      k \<noteq> [] \<and> \<not> is_space (hd k) \<and> \<not> is_space (last k) \<and> dict_contains district_map k \<and>
      mapping_lookup district_map k = Inr (Text canonical)) district_renames"
  by code_simp

lemma state_seed_keys:
  "list_all (\<lambda>(original, canonical). let k = str_lower original in
      k \<noteq> [] \<and> \<not> is_space (hd k) \<and> \<not> is_space (last k) \<and> dict_contains state_map k \<and>
      mapping_lookup state_map k = Inr (Text canonical)) state_corrections"
  by code_simp

lemma seed_variants:
  assumes "list_all (\<lambda>(original, canonical). let k = str_lower original in
      k \<noteq> [] \<and> \<not> is_space (hd k) \<and> \<not> is_space (last k) \<and> dict_contains d k \<and>
      mapping_lookup d k = Inr (Text canonical)) seeds"
    and "(original, canonical) \<in> set seeds"
    and "str_lower (filter (\<lambda>c. is_word c \<or> is_space c) s) = str_lower original"
    and "list_all is_space l" "list_all is_space r"
  shows "correct (l @ s @ r) d = Inr (Text canonical)"
proof -
  define k where "k = str_lower original"
  from assms(1,2) have k: "k \<noteq> []" "\<not> is_space (hd k)" "\<not> is_space (last k)"
    "dict_contains d k" "mapping_lookup d k = Inr (Text canonical)"
    unfolding list_all_iff k_def by (auto simp: Let_def)
  have l: "\<forall>c\<in>set l. is_space c" using assms(4) by (simp add: list_all_iff)
  have r: "\<forall>c\<in>set r. is_space c" using assms(5) by (simp add: list_all_iff)
  have "normalize_value (Text (l @ s @ r)) = Some k"
    using assms(3) k(1-3) l r unfolding k_def[symmetric] by (rule normalize_value_padded)
  then show ?thesis using k(4,5) by (rule correct_exact_key)
qed


text \<open>
  C3. \<open>normalize\<close> returns \<open>None\<close> exactly for a missing value. For any other value, write
  the lower-cased \<open>str()\<close> form as \<open>l @ t @ r\<close> with \<open>l\<close> and \<open>r\<close> white space and \<open>t\<close> empty or
  with white space at neither end (there is such a splitting); then the result is \<open>t\<close>
  with every character removed that is neither a word character nor white space. A text
  that normalises to the empty text gives the empty text, not \<open>None\<close>, and the empty text
  is looked up as a key like any other, while a missing value is returned as it is.
\<close>

theorem normalize_contract:
  "(normalize_value v = None \<longleftrightarrow> isna v) \<and>
   (\<not> isna v \<longrightarrow>
      (\<exists>l t r. str_lower (str_of v) = l @ t @ r \<and> list_all is_space l \<and> list_all is_space r \<and>
         (t = [] \<or> \<not> is_space (hd t) \<and> \<not> is_space (last t)))) \<and>
   (\<forall>l t r. \<not> isna v \<longrightarrow> str_lower (str_of v) = l @ t @ r \<longrightarrow>
      list_all is_space l \<longrightarrow> list_all is_space r \<longrightarrow>
      (t = [] \<or> \<not> is_space (hd t) \<and> \<not> is_space (last t)) \<longrightarrow>
      normalize_value v = Some (filter (\<lambda>c. is_word c \<or> is_space c) t)) \<and>
   str_lower ''A-Z: ABCDEFGHIJKLMNOPQRSTUVWXYZ'' = ''a-z: abcdefghijklmnopqrstuvwxyz'' \<and>
   normalize_value (Text '' Cuddapah! '') = Some ''cuddapah'' \<and>
   normalize_value (Text ''cuddapah'') = Some ''cuddapah'' \<and>
   normalize_value (Text ''St. John's, N-W_9'') = Some ''st johns nw_9'' \<and>
   normalize_value (Text '' ?! '') = Some '''' \<and>
   fuzzy_correct (Text '' ?! '') [('''', ''Unknown'')] default_cutoff = Inr (Text ''Unknown'') \<and>
   fuzzy_correct (Missing NaN) [('''', ''Unknown'')] default_cutoff = Inr (Missing NaN)"
proof (intro conjI allI impI)
  show "(normalize_value v = None) = isna v" by (simp add: normalize_value_def)
next
  assume "\<not> isna v"
  obtain l r where d: "str_lower (str_of v) = l @ str_strip (str_lower (str_of v)) @ r"
    "\<forall>c\<in>set l. is_space c" "\<forall>c\<in>set r. is_space c"
    using str_strip_decomp[of "str_lower (str_of v)"] by blast
  have "str_strip (str_lower (str_of v)) = [] \<or>
        \<not> is_space (hd (str_strip (str_lower (str_of v)))) \<and>
        \<not> is_space (last (str_strip (str_lower (str_of v))))"
    using str_strip_ends[of "str_lower (str_of v)"] by blast
  with d show "\<exists>l t r. str_lower (str_of v) = l @ t @ r \<and> list_all is_space l \<and>
      list_all is_space r \<and> (t = [] \<or> \<not> is_space (hd t) \<and> \<not> is_space (last t))"
    unfolding list_all_iff by blast
next
  fix l t r
  assume a: "\<not> isna v" "str_lower (str_of v) = l @ t @ r" "list_all is_space l"
    "list_all is_space r" "t = [] \<or> \<not> is_space (hd t) \<and> \<not> is_space (last t)"
  have "str_strip (str_lower (str_of v)) = t"
    using a(2) a(3,4)[unfolded list_all_iff] a(5) by (rule str_strip_unique)
  then show "normalize_value v = Some (filter (\<lambda>c. is_word c \<or> is_space c) t)"
    using a(1) by (simp add: normalize_value_def re_sub_nonword_filter)
next
  show "str_lower ''A-Z: ABCDEFGHIJKLMNOPQRSTUVWXYZ'' = ''a-z: abcdefghijklmnopqrstuvwxyz''"
    by code_simp
  show "normalize_value (Text '' Cuddapah! '') = Some ''cuddapah''" by code_simp
  show "normalize_value (Text ''cuddapah'') = Some ''cuddapah''" by code_simp
  show "normalize_value (Text ''St. John's, N-W_9'') = Some ''st johns nw_9''" by code_simp
  show "normalize_value (Text '' ?! '') = Some ''''" by code_simp
  show "fuzzy_correct (Text '' ?! '') [('''', ''Unknown'')] default_cutoff = Inr (Text ''Unknown'')"
    by code_simp
  show "fuzzy_correct (Missing NaN) [('''', ''Unknown'')] default_cutoff = Inr (Missing NaN)"
    by code_simp
qed

theorem normalize_contract_witness:
  "\<not> isna (Other ''  12.5 '') \<and>
   str_lower (str_of (Other ''  12.5 '')) = ''  '' @ ''12.5'' @ '' '' \<and>
   list_all is_space ''  '' \<and> list_all is_space '' '' \<and>
   \<not> is_space (hd ''12.5'') \<and> \<not> is_space (last ''12.5'') \<and>
   normalize_value (Other ''  12.5 '') = Some ''125''"
proof -
  have h: "\<not> isna (Other ''  12.5 '')"
    "str_lower (str_of (Other ''  12.5 '')) = ''  '' @ ''12.5'' @ '' ''"
    "list_all is_space ''  ''" "list_all is_space '' ''"
    "\<not> is_space (hd ''12.5'')" "\<not> is_space (last ''12.5'')"
    by code_simp+
  have f: "filter (\<lambda>c. is_word c \<or> is_space c) ''12.5'' = ''125''" by code_simp
  from normalize_contract[of "Other ''  12.5 ''"] h
  have "normalize_value (Other ''  12.5 '') =
        Some (filter (\<lambda>c. is_word c \<or> is_space c) ''12.5'')" by blast
  with h f show ?thesis by simp
qed

text \<open>
  C4 (as amended). \<open>correct("Cuddapah ", district_map)\<close> is \<open>"Ysr Kadapa"\<close> by an exact
  match of the normalised key; \<open>"Cudapah"\<close> scores 14/15 against \<open>cuddapah\<close> and resolves
  to \<open>"Ysr Kadapa"\<close>; \<open>"Mumbai"\<close> scores below the cut-off against every key and comes
  back unchanged; \<open>"Kadapa"\<close> scores 4/7 against \<open>cuddapah\<close>, below the cut-off against
  every key, and comes back unchanged.
\<close>

theorem correct_examples:
  "correct ''Cuddapah '' district_map = Inr (Text ''Ysr Kadapa'') \<and>
   ratio ''cuddapah'' ''cudapah'' = 14 / 15 \<and>
   correct ''Cudapah'' district_map = Inr (Text ''Ysr Kadapa'') \<and>
   list_all (below_cutoff ''mumbai'') (dict_keys district_map) \<and>
   correct ''Mumbai'' district_map = Inr (Text ''Mumbai'') \<and>
   ratio ''cuddapah'' ''kadapa'' = 4 / 7 \<and>
   list_all (below_cutoff ''kadapa'') (dict_keys district_map) \<and>
   correct ''Kadapa'' district_map = Inr (Text ''Kadapa'')"
  by code_simp

text \<open>
  C4 as stated fails: \<open>correct("Kadapa", district_map)\<close> is not \<open>"Ysr Kadapa"\<close>.
\<close>

theorem correct_kadapa_counterexample:
  "correct ''Kadapa'' district_map \<noteq> Inr (Text ''Ysr Kadapa'')"
  by code_simp

text \<open>
  C5 (as amended). For every seed entry \<open>(original, canonical)\<close> of either dictionary, the
  corrector maps \<open>original\<close>, \<open>original.upper()\<close> and \<open>" " + original + " "\<close> to
  \<open>canonical\<close>. More generally it maps \<open>l + s + r\<close> to \<open>canonical\<close> whenever \<open>l\<close> and \<open>r\<close> are
  white space and \<open>s\<close>, with its punctuation characters (neither word character nor
  white space) deleted, equals \<open>original\<close> up to letter case. Punctuation is deleted after
  the trimming, so white space between a punctuation character and the end of the text
  stays: \<open>"- Hugli -"\<close> comes back unchanged.
\<close>

theorem seeds_resolve:
  "list_all (seed_ok district_map) district_renames \<and>
   list_all (seed_ok state_map) state_corrections \<and>
   (\<forall>original canonical s l r.
      (original, canonical) \<in> set district_renames \<longrightarrow>
      str_lower (filter (\<lambda>c. is_word c \<or> is_space c) s) = str_lower original \<longrightarrow>
      list_all is_space l \<longrightarrow> list_all is_space r \<longrightarrow>
      correct (l @ s @ r) district_map = Inr (Text canonical)) \<and>
   (\<forall>original canonical s l r.
      (original, canonical) \<in> set state_corrections \<longrightarrow>
      str_lower (filter (\<lambda>c. is_word c \<or> is_space c) s) = str_lower original \<longrightarrow>
      list_all is_space l \<longrightarrow> list_all is_space r \<longrightarrow>
      correct (l @ s @ r) state_map = Inr (Text canonical)) \<and>
   correct ''- Hugli -'' district_map = Inr (Text ''- Hugli -'')"
proof (intro conjI allI impI)
  show "list_all (seed_ok district_map) district_renames" by code_simp
  show "list_all (seed_ok state_map) state_corrections" by code_simp
  show "correct ''- Hugli -'' district_map = Inr (Text ''- Hugli -'')" by code_simp
next
  fix original canonical s l r
  assume "(original, canonical) \<in> set district_renames"
    "str_lower (filter (\<lambda>c. is_word c \<or> is_space c) s) = str_lower original"
    "list_all is_space l" "list_all is_space r"
  with district_seed_keys show "correct (l @ s @ r) district_map = Inr (Text canonical)"
    by (rule seed_variants)
next
  fix original canonical s l r
  assume "(original, canonical) \<in> set state_corrections"
    "str_lower (filter (\<lambda>c. is_word c \<or> is_space c) s) = str_lower original"
    "list_all is_space l" "list_all is_space r"
  with state_seed_keys show "correct (l @ s @ r) state_map = Inr (Text canonical)"
    by (rule seed_variants)
qed

theorem seeds_resolve_witness:
  "(''WESTBENGAL'', ''West Bengal'') \<in> set state_corrections \<and>
   str_lower (filter (\<lambda>c. is_word c \<or> is_space c) ''West-Bengal.'') = str_lower ''WESTBENGAL'' \<and>
   list_all is_space '' '' \<and> list_all is_space ''  '' \<and>
   correct ('' '' @ ''West-Bengal.'' @ ''  '') state_map = Inr (Text ''West Bengal'')"
proof -
  have a: "(''WESTBENGAL'', ''West Bengal'') \<in> set state_corrections" by code_simp
  have b: "str_lower (filter (\<lambda>c. is_word c \<or> is_space c) ''West-Bengal.'') = str_lower ''WESTBENGAL''"
    by code_simp
  have c: "list_all is_space '' ''" "list_all is_space ''  ''" by code_simp+
  from seeds_resolve a b c
  have "correct ('' '' @ ''West-Bengal.'' @ ''  '') state_map = Inr (Text ''West Bengal'')"
    by blast
  with a b c show ?thesis by simp
qed


text \<open>
  C5 as stated fails for punctuation: \<open>" Hugli "\<close> resolves to \<open>"Hooghly"\<close>, and the same text
  with a hyphen before and after it, \<open>"- Hugli -"\<close>, does not.
\<close>

theorem seeds_punctuation_counterexample:
  "correct '' Hugli '' district_map = Inr (Text ''Hooghly'') \<and>
   correct ''- Hugli -'' district_map \<noteq> Inr (Text ''Hooghly'')"
  by code_simp

text \<open>
  C8. Every canonical text \<open>v\<close> of a dictionary is a fixed point of the corrector on
  that dictionary: \<open>correct(v, dict) == v\<close>, and correcting the result again gives the
  same result.
\<close>

theorem canonical_fixed_points:
  "list_all (fixed_point district_map) (map snd district_map) \<and>
   list_all (fixed_point state_map) (map snd state_map)"
  by code_simp

end
